theory Spec2Isabelle
  imports Complex_Main "HOL-Library.AList" "HOL-Library.Log_Nat"
begin

section \<open>Python primitives used by \<open>backend/app.py\<close>\<close>

subsection \<open>Strings\<close>

text \<open>
  A character is a code point below 256. \<open>str.strip()\<close> removes the characters of which
  \<open>str.isspace\<close> holds: below 256 these are the code points 9 to 13, 28 to 32, 133 and
  160. \<open>str.upper\<close> is modelled on ASCII: it maps \<open>a\<close>..\<open>z\<close> to \<open>A\<close>..\<open>Z\<close> and
  leaves every other character as it is (Python also maps letters beyond ASCII).
\<close>

definition is_space :: "char \<Rightarrow> bool" where
  "is_space c =
     (let n = (of_char c :: nat)
      in (9 \<le> n \<and> n \<le> 13) \<or> (28 \<le> n \<and> n \<le> 32) \<or> n = 133 \<or> n = 160)"

definition upper_char :: "char \<Rightarrow> char" where
  "upper_char c = (let n = (of_char c :: nat) in if 97 \<le> n \<and> n \<le> 122 then char_of (n - 32) else c)"

definition strip :: "string \<Rightarrow> string" where
  "strip s = rev (dropWhile is_space (rev (dropWhile is_space s)))"

definition upper :: "string \<Rightarrow> string" where
  "upper s = map upper_char s"

subsection \<open>Floats\<close>

text \<open>
  A Python \<open>float\<close> is an IEEE 754 binary64 value: a finite rational, an infinity or NaN
  (\<open>-0.0\<close> and \<open>0.0\<close> are one value here, as they are under Python's \<open>==\<close>). A small
  Python \<open>int\<close> that meets a float in an operation is converted exactly and is written
  \<open>Fin\<close> of its value.
\<close>

datatype pyfloat = Fin rat | PInf | NInf | NaN

datatype error = OverflowError | ValueError | ZeroDivisionError | CheckViolation | ForeignKeyViolation

text \<open>Rounding to an integer, a tie going to the even neighbour.\<close>

definition round_half_even :: "rat \<Rightarrow> int" where
  "round_half_even y =
     (let f = \<lfloor>y\<rfloor>; d = y - of_int f
      in if d < 1 / 2 then f else if 1 / 2 < d then f + 1 else if even f then f else f + 1)"

text \<open>
  \<open>ilog2 x\<close> is the binary exponent of a positive rational: \<open>2 powi ilog2 x \<le> x < 2 powi (ilog2 x + 1)\<close>.
  \<open>fl x\<close> is \<open>x\<close> rounded to the nearest binary64 value, a tie going to the even
  significand: 53 significant bits, the spacing never below \<open>2 powi - 1074\<close> (subnormal
  numbers), and an infinity when the rounded magnitude reaches \<open>2 ^ 1024\<close> (the
  exponent is 1024 or more, or it is 1023 and the significand rounds up to \<open>2 ^ 53\<close>).
\<close>

definition ilog2 :: "rat \<Rightarrow> int" where
  "ilog2 x =
     (case quotient_of x of (n, d) \<Rightarrow>
        let k = bitlen n - bitlen d in if 2 powi k \<le> x then k else k - 1)"

definition fl :: "rat \<Rightarrow> pyfloat" where
  "fl x =
     (if x = 0 then Fin 0
      else let e = max (ilog2 \<bar>x\<bar>) (- 1022)
           in if 1024 \<le> e then (if 0 < x then PInf else NInf)
              else let q = 2 powi (e - 52); m = round_half_even (x / q)
                   in if e = 1023 \<and> 2 ^ 53 \<le> \<bar>m\<bar> then (if 0 < x then PInf else NInf)
                      else Fin (of_int m * q))"

fun fneg :: "pyfloat \<Rightarrow> pyfloat" where
  "fneg (Fin a) = Fin (- a)"
| "fneg PInf = NInf"
| "fneg NInf = PInf"
| "fneg NaN = NaN"

fun fadd :: "pyfloat \<Rightarrow> pyfloat \<Rightarrow> pyfloat" where
  "fadd (Fin a) (Fin b) = fl (a + b)"
| "fadd NaN y = NaN"
| "fadd x NaN = NaN"
| "fadd PInf NInf = NaN"
| "fadd NInf PInf = NaN"
| "fadd PInf y = PInf"
| "fadd x PInf = PInf"
| "fadd NInf y = NInf"
| "fadd x NInf = NInf"

definition fsub :: "pyfloat \<Rightarrow> pyfloat \<Rightarrow> pyfloat" where
  "fsub x y = fadd x (fneg y)"

fun fmul :: "pyfloat \<Rightarrow> pyfloat \<Rightarrow> pyfloat" where
  "fmul (Fin a) (Fin b) = fl (a * b)"
| "fmul NaN y = NaN"
| "fmul x NaN = NaN"
| "fmul (Fin a) y = (if a = 0 then NaN else if 0 < a then y else fneg y)"
| "fmul x (Fin b) = (if b = 0 then NaN else if 0 < b then x else fneg x)"
| "fmul PInf y = y"
| "fmul NInf y = fneg y"

text \<open>Division of a float by a finite divisor that is not zero (the source divides by 1000).\<close>

fun fdiv :: "pyfloat \<Rightarrow> rat \<Rightarrow> pyfloat" where
  "fdiv (Fin a) d = fl (a / d)"
| "fdiv PInf d = (if 0 < d then PInf else NInf)"
| "fdiv NInf d = (if 0 < d then NInf else PInf)"
| "fdiv NaN d = NaN"

text \<open>\<open>x < y\<close>; a comparison with NaN is false.\<close>

fun flt :: "pyfloat \<Rightarrow> pyfloat \<Rightarrow> bool" where
  "flt (Fin a) (Fin b) = (a < b)"
| "flt NaN y = False"
| "flt x NaN = False"
| "flt x NInf = False"
| "flt NInf y = True"
| "flt PInf y = False"
| "flt x PInf = True"

text \<open>
  \<open>min(a, b)\<close> answers \<open>a\<close> unless \<open>b < a\<close>, and \<open>max(a, b)\<close> answers \<open>a\<close> unless
  \<open>b > a\<close>.
\<close>

definition py_min :: "pyfloat \<Rightarrow> pyfloat \<Rightarrow> pyfloat" where
  "py_min a b = (if flt b a then b else a)"

definition py_max :: "pyfloat \<Rightarrow> pyfloat \<Rightarrow> pyfloat" where
  "py_max a b = (if flt a b then b else a)"

text \<open>
  \<open>a / b\<close> on two Python integers is the exact quotient rounded once to a float; it
  raises when \<open>b\<close> is zero and when the rounded quotient is too large for a float.
\<close>

definition py_truediv :: "int \<Rightarrow> int \<Rightarrow> error + pyfloat" where
  "py_truediv a b =
     (if b = 0 then Inl ZeroDivisionError
      else case fl (of_int a / of_int b) of Fin r \<Rightarrow> Inr (Fin r) | _ \<Rightarrow> Inl OverflowError)"

text \<open>\<open>int(x)\<close> cuts the fraction off; it raises on an infinity and on NaN.\<close>

fun py_int :: "pyfloat \<Rightarrow> error + int" where
  "py_int (Fin x) = Inr (if 0 \<le> x then \<lfloor>x\<rfloor> else \<lceil>x\<rceil>)"
| "py_int NaN = Inl ValueError"
| "py_int x = Inl OverflowError"

text \<open>
  \<open>round(x, 2)\<close>: the exact value of the float is rounded to the nearest multiple of
  1/100, a tie going to the even neighbour, and the float nearest to that decimal is
  returned; an infinity and NaN are returned as they are.
\<close>

fun round2 :: "pyfloat \<Rightarrow> pyfloat" where
  "round2 (Fin x) = fl (of_int (round_half_even (x * 100)) / 100)"
| "round2 x = x"

section \<open>The data model\<close>

text \<open>
  The three pydantic classes. The field \<open>id\<close> is \<open>id_str\<close>, \<open>make\<close> is \<open>make_str\<close> and \<open>dom\<close>
  (days on market) is \<open>dom_days\<close> here; \<open>created_at\<close> is a timestamp, an integer.
  \<open>miles\<close> and \<open>dom\<close> are Python integers, without bound.
\<close>

record Listing =
  vin :: string
  price :: pyfloat
  miles :: int
  dom_days :: int
  source :: "string option"

record ScoreResponse =
  vin :: string
  score :: int
  buyMax :: pyfloat
  reasonCodes :: "string list"

record StoredListing =
  id_str :: string
  vin :: string
  year :: int
  make_str :: string
  model :: string
  trim :: "string option"
  miles :: int
  price :: pyfloat
  score :: "int option"
  dom_days :: int
  source :: "string option"
  radius :: "int option"
  reasonCodes :: "string list"
  buyMax :: "pyfloat option"
  created_at :: int

text \<open>
  The in-memory stores \<open>_by_id\<close> and \<open>_ids_by_vin\<close>. A Python dict keeps its keys in
  the order of their first insertion, and \<open>list_listings\<close> reads that order, so each
  dict is an association list: \<open>map_of\<close> is \<open>dict.get\<close>, and \<open>AList.update\<close> is
  the assignment \<open>d[k] = v\<close> (in place for a key that is there, at the end for a new one).
\<close>

record store =
  by_id :: "(string \<times> StoredListing) list"
  ids_by_vin :: "(string \<times> string list) list"

definition empty_store :: store where
  "empty_store = \<lparr>by_id = [], ids_by_vin = []\<rparr>"

text \<open>\<open>_ids_by_vin.get(v, [])\<close>, which is also what \<open>setdefault(v, [])\<close> reads.\<close>

definition get_ids :: "(string \<times> string list) list \<Rightarrow> string \<Rightarrow> string list" where
  "get_ids idx v = (case map_of idx v of None \<Rightarrow> [] | Some l \<Rightarrow> l)"

text \<open>
  The relational store, as far as \<open>score\<close> touches it: the VINs that have a row in
  \<open>vehicles\<close>, and the rows of \<open>scores\<close> (vin, score, buy_max, reason_codes) in the order
  of their insertion. \<open>_db_enabled\<close> is fixed when the module is loaded; it is the
  argument \<open>dbo\<close> of the scoring functions, \<open>None\<close> when it is false and the database
  when it is true. The connection is taken to succeed; it is opened with autocommit, so
  a refused insert leaves the tables as they were.
\<close>

type_synonym score_row = "string \<times> int \<times> pyfloat \<times> string list"

record database =
  vehicles :: "string list"
  scores :: "score_row list"

definition empty_database :: database where
  "empty_database = \<lparr>vehicles = [], scores = []\<rparr>"

text \<open>
  Modelled from the spec: the schema file \<open>db/schema.sql\<close> that the source executes is
  not among the sources. The specification has \<open>scores\<close> foreign-keyed to \<open>vehicles\<close>
  with the score bounded 0 to 100, and so has the DDL that the source falls back to
  (\<open>vin text references vehicles(vin)\<close>, \<open>check (score between 0 and 100)\<close>). An
  insert that breaks the check or the foreign key is refused and raises.
\<close>

definition insert_score :: "database \<Rightarrow> score_row \<Rightarrow> error + database" where
  "insert_score d row =
     (if \<not> (0 \<le> fst (snd row) \<and> fst (snd row) \<le> 100) then Inl CheckViolation
      else if fst row \<notin> set (vehicles d) then Inl ForeignKeyViolation
      else Inr (d\<lparr>scores := scores d @ [row]\<rparr>))"

section \<open>Ingestion (memory backend)\<close>

text \<open>
  \<open>ingest\<close> and \<open>list_listings\<close> are modelled on the memory backend, the path they take
  when \<open>_db_enabled\<close> is false. The normalisation that \<open>ingest\<close> applies to the copy
  \<open>norm\<close> of each item: \<open>not norm.radius\<close> holds of \<open>None\<close> and of \<open>0\<close>.
\<close>

definition normalize :: "StoredListing \<Rightarrow> StoredListing" where
  "normalize item =
     item\<lparr>StoredListing.vin := upper (strip (StoredListing.vin item)),
          make_str := strip (make_str item),
          model := strip (model item),
          trim := (case trim item of None \<Rightarrow> None | Some t \<Rightarrow> Some (strip t)),
          radius := (if radius item = None \<or> radius item = Some 0 then Some 25 else radius item)\<rparr>"

definition ingest_item :: "store \<Rightarrow> StoredListing \<Rightarrow> store" where
  "ingest_item s item =
     (let norm = normalize item;
          ids = get_ids (ids_by_vin s) (StoredListing.vin norm);
          ids' = (if id_str norm \<in> set ids then ids else ids @ [id_str norm])
      in \<lparr>by_id = AList.update (id_str norm) norm (by_id s),
          ids_by_vin = AList.update (StoredListing.vin norm) ids' (ids_by_vin s)\<rparr>)"

text \<open>The loop of \<open>ingest\<close>; \<open>ingest_item\<close> is its body, \<open>out\<close> the list returned.\<close>

fun ingest :: "store \<Rightarrow> StoredListing list \<Rightarrow> store \<times> StoredListing list" where
  "ingest s [] = (s, [])"
| "ingest s (item # listings) =
     (case ingest (ingest_item s item) listings of (s', out) \<Rightarrow> (s', normalize item # out))"

section \<open>Listing (memory backend)\<close>

definition list_listings :: "store \<Rightarrow> StoredListing list" where
  "list_listings s = map snd (by_id s)"

section \<open>Scoring\<close>

text \<open>
  The body of the loop of \<open>score\<close>, one definition for each local variable, in the
  order of the source. The two integer divisions can raise OverflowError; every other
  operation is on floats and answers a float. \<open>reasons\<close> is the list after all four
  \<open>append\<close>s. \<open>clamped\<close> is the argument of \<open>int(...)\<close>.
\<close>

definition dom_penalty :: "Listing \<Rightarrow> error + pyfloat" where
  "dom_penalty item = py_truediv (max 0 (30 - Listing.dom_days item)) 30"

definition miles_penalty :: "Listing \<Rightarrow> error + pyfloat" where
  "miles_penalty item = py_truediv (max 0 (100000 - Listing.miles item)) 100000"

definition base :: "pyfloat \<Rightarrow> pyfloat \<Rightarrow> pyfloat" where
  "base dp mp = fadd (fmul (Fin 40) dp) (fmul (Fin 40) mp)"

definition price_boost :: "Listing \<Rightarrow> pyfloat" where
  "price_boost item =
     (if flt (Listing.price item) (Fin 25000)
      then py_min (Fin 20) (fdiv (fsub (Fin 25000) (Listing.price item)) 1000)
      else Fin 0)"

definition reasons :: "Listing \<Rightarrow> string list" where
  "reasons item =
     (if flt (Listing.price item) (Fin 25000) then [''PriceVsBaseline''] else []) @
     (if Listing.dom_days item < 20 then [''LowDOM''] else []) @
     (if Listing.miles item < 50000 then [''LowMiles''] else []) @
     (if 45 < Listing.dom_days item then [''AgedInventory''] else [])"

definition clamped :: "pyfloat \<Rightarrow> pyfloat \<Rightarrow> Listing \<Rightarrow> pyfloat" where
  "clamped dp mp item = py_max (Fin 0) (py_min (Fin 100) (fadd (base dp mp) (price_boost item)))"

definition score_val :: "pyfloat \<Rightarrow> pyfloat \<Rightarrow> Listing \<Rightarrow> error + int" where
  "score_val dp mp item = py_int (clamped dp mp item)"

definition buy_max :: "Listing \<Rightarrow> pyfloat" where
  "buy_max item =
     (if 45 < Listing.dom_days item then fmul (Listing.price item) (fl 0.98)
      else py_max (Fin 0) (fmul (Listing.price item) (fl 1.03)))"

text \<open>\<open>reasons or ["Heuristic"]\<close>: an empty list is falsy.\<close>

definition reason_codes :: "Listing \<Rightarrow> string list" where
  "reason_codes item = (if reasons item = [] then [''Heuristic''] else reasons item)"

text \<open>
  What the loop body has computed when it reaches the stores: \<open>score_val\<close>,
  \<open>round(buy_max, 2)\<close> and \<open>reasons or ["Heuristic"]\<close>, or the exception raised on
  the way.
\<close>

definition scored :: "Listing \<Rightarrow> error + int \<times> pyfloat \<times> string list" where
  "scored item =
     (case dom_penalty item of Inl e \<Rightarrow> Inl e | Inr dp \<Rightarrow>
      case miles_penalty item of Inl e \<Rightarrow> Inl e | Inr mp \<Rightarrow>
      case score_val dp mp item of Inl e \<Rightarrow> Inl e | Inr sv \<Rightarrow>
        Inr (sv, round2 (buy_max item), reason_codes item))"

definition vin_key :: "string \<Rightarrow> string" where
  "vin_key v = upper (strip v)"

text \<open>The branch \<open>if _db_enabled\<close>: the insert into \<open>scores\<close>.\<close>

definition record_score :: "database option \<Rightarrow> score_row \<Rightarrow> error + database option" where
  "record_score dbo row =
     (case dbo of None \<Rightarrow> Inr None
      | Some d \<Rightarrow> (case insert_score d row of Inl e \<Rightarrow> Inl e | Inr d' \<Rightarrow> Inr (Some d')))"

definition apply_score :: "int \<Rightarrow> pyfloat \<Rightarrow> string list \<Rightarrow> StoredListing \<Rightarrow> StoredListing" where
  "apply_score sv bm codes stored =
     stored\<lparr>StoredListing.score := Some sv,
            StoredListing.buyMax := Some bm,
            StoredListing.reasonCodes := codes\<rparr>"

text \<open>The loop over \<open>_ids_by_vin.get(vin_key, [])\<close>, writing into \<open>_by_id\<close>.\<close>

fun persist_score ::
  "int \<Rightarrow> pyfloat \<Rightarrow> string list \<Rightarrow> string list \<Rightarrow>
   (string \<times> StoredListing) list \<Rightarrow> (string \<times> StoredListing) list" where
  "persist_score sv bm codes [] m = m"
| "persist_score sv bm codes (lid # lids) m =
     persist_score sv bm codes lids
       (case map_of m lid of None \<Rightarrow> m
        | Some stored \<Rightarrow> AList.update lid (apply_score sv bm codes stored) m)"

definition matching_ids :: "store \<Rightarrow> Listing \<Rightarrow> string list" where
  "matching_ids s item = get_ids (ids_by_vin s) (vin_key (Listing.vin item))"

text \<open>
  One pass of the loop of \<open>score\<close>: the stores it leaves, and the response appended to
  \<open>out\<close> or the exception that ends the request. An exception leaves the stores as the
  pass found them.
\<close>

definition score_item ::
  "database option \<Rightarrow> store \<Rightarrow> Listing \<Rightarrow> (database option \<times> store) \<times> (error + ScoreResponse)" where
  "score_item dbo s item =
     (case scored item of Inl e \<Rightarrow> ((dbo, s), Inl e)
      | Inr (sv, bm, codes) \<Rightarrow>
        (case record_score dbo (vin_key (Listing.vin item), sv, bm, codes) of
           Inl e \<Rightarrow> ((dbo, s), Inl e)
         | Inr dbo' \<Rightarrow>
             ((dbo', s\<lparr>by_id := persist_score sv bm codes (matching_ids s item) (by_id s)\<rparr>),
              Inr \<lparr>ScoreResponse.vin = Listing.vin item, ScoreResponse.score = sv,
                   ScoreResponse.buyMax = bm, ScoreResponse.reasonCodes = codes\<rparr>)))"

text \<open>
  The loop of \<open>score\<close>. The stores are process-wide: what the passes before an
  exception wrote stays written.
\<close>

fun score_listings ::
  "database option \<Rightarrow> store \<Rightarrow> Listing list \<Rightarrow>
   (database option \<times> store) \<times> (error + ScoreResponse list)" where
  "score_listings dbo s [] = ((dbo, s), Inr [])"
| "score_listings dbo s (item # listings) =
     (case score_item dbo s item of
        (st, Inl e) \<Rightarrow> (st, Inl e)
      | ((dbo1, s1), Inr r) \<Rightarrow>
          (case score_listings dbo1 s1 listings of
             (st, Inl e) \<Rightarrow> (st, Inl e)
           | (st, Inr out) \<Rightarrow> (st, Inr (r # out))))"

section \<open>Sequences of requests (memory backend)\<close>

datatype request = Ingest "StoredListing list" | Score "Listing list"

fun handle :: "store \<Rightarrow> request \<Rightarrow> store" where
  "handle s (Ingest listings) = fst (ingest s listings)"
| "handle s (Score listings) = snd (fst (score_listings None s listings))"

definition run :: "request list \<Rightarrow> store \<Rightarrow> store" where
  "run reqs s = foldl handle s reqs"

section \<open>Notions of the specification\<close>

text \<open>
  Two VIN strings that differ only in letter case and in surrounding whitespace: each is
  a core between two runs of whitespace, and the cores agree position by position up to
  the case of letters.
\<close>

definition same_letters :: "string \<Rightarrow> string \<Rightarrow> bool" where
  "same_letters a b = list_all2 (\<lambda>c d. upper_char c = upper_char d) a b"

definition vin_equiv :: "string \<Rightarrow> string \<Rightarrow> bool" where
  "vin_equiv a b =
     (\<exists>pa ca sa pb cb sb.
        a = pa @ ca @ sa \<and> b = pb @ cb @ sb \<and>
        list_all is_space pa \<and> list_all is_space sa \<and>
        list_all is_space pb \<and> list_all is_space sb \<and> same_letters ca cb)"



text \<open>Score fields all unset, or all set together.\<close>

definition score_consistent :: "StoredListing \<Rightarrow> bool" where
  "score_consistent l =
     ((StoredListing.score l = None \<and> StoredListing.buyMax l = None \<and> StoredListing.reasonCodes l = []) \<or>
      (StoredListing.score l \<noteq> None \<and> StoredListing.buyMax l \<noteq> None \<and> StoredListing.reasonCodes l \<noteq> []))"

text \<open>A stored listing that carries a score, a buyMax and reason codes.\<close>

definition carries :: "StoredListing \<Rightarrow> int \<times> pyfloat \<times> string list \<Rightarrow> bool" where
  "carries l h =
     (StoredListing.score l = Some (fst h) \<and> StoredListing.buyMax l = Some (fst (snd h)) \<and>
      StoredListing.reasonCodes l = snd (snd h))"

text \<open>A stored radius that is a positive value.\<close>

definition radius_positive :: "StoredListing \<Rightarrow> bool" where
  "radius_positive l = (case radius l of None \<Rightarrow> False | Some r \<Rightarrow> 0 < r)"

text \<open>The listings that a sequence of requests ingests.\<close>

fun ingested :: "request list \<Rightarrow> StoredListing list" where
  "ingested [] = []"
| "ingested (Ingest listings # reqs) = listings @ ingested reqs"
| "ingested (Score listings # reqs) = ingested reqs"

text \<open>
  A list of listings is newest-created-first when the creation timestamps never
  increase along it.
\<close>

definition newest_first :: "StoredListing list \<Rightarrow> bool" where
  "newest_first ls = sorted (rev (map created_at ls))"

section \<open>Example data\<close>

definition example_fact :: Listing where
  "example_fact =
     \<lparr>Listing.vin = ''X1'', price = Fin 20000, miles = 30000, dom_days = 10, source = None\<rparr>"

definition listing_a :: StoredListing where
  "listing_a =
     \<lparr>id_str = ''a'', StoredListing.vin = '' x1 '', year = 2020, make_str = ''Honda '',
      model = ''Civic'', trim = Some '' EX'', StoredListing.miles = 30000,
      StoredListing.price = Fin 20000, StoredListing.score = None, StoredListing.dom_days = 10,
      StoredListing.source = None, radius = None, StoredListing.reasonCodes = [],
      StoredListing.buyMax = None, created_at = 1\<rparr>"

definition listing_b :: StoredListing where
  "listing_b = listing_a\<lparr>id_str := ''b'', radius := Some 10, created_at := 2\<rparr>"

definition aged_fact :: Listing where
  "aged_fact =
     \<lparr>Listing.vin = ''x1'', price = Fin 10000, miles = 120000, dom_days = 50, source = None\<rparr>"

definition negative_radius_listing :: StoredListing where
  "negative_radius_listing = listing_a\<lparr>radius := Some (- 5)\<rparr>"

definition half_scored_listing :: StoredListing where
  "half_scored_listing = listing_a\<lparr>StoredListing.score := Some 50\<rparr>"

definition other_fact :: Listing where
  "other_fact =
     \<lparr>Listing.vin = ''zz9'', price = Fin 30000, miles = 60000, dom_days = 25, source = None\<rparr>"

section \<open>Invariants of the memory store\<close>

text \<open>
  \<open>linked s v lid\<close>: the index lists \<open>lid\<close> under the VIN \<open>v\<close> and a listing is
  stored under \<open>lid\<close>. \<open>indexed s\<close>: the keys of \<open>_by_id\<close> are distinct and every
  stored listing is listed in the index under its own VIN. \<open>all_consistent s\<close>: every
  stored listing has consistent score fields.
\<close>

definition linked :: "store \<Rightarrow> string \<Rightarrow> string \<Rightarrow> bool" where
  "linked s v lid = (lid \<in> set (get_ids (ids_by_vin s) v) \<and> map_of (by_id s) lid \<noteq> None)"

definition indexed :: "store \<Rightarrow> bool" where
  "indexed s =
     (distinct (map fst (by_id s)) \<and>
      (\<forall>lid l. map_of (by_id s) lid = Some l \<longrightarrow>
         lid \<in> set (get_ids (ids_by_vin s) (StoredListing.vin l))))"

definition all_consistent :: "store \<Rightarrow> bool" where
  "all_consistent s = (\<forall>lid l. map_of (by_id s) lid = Some l \<longrightarrow> score_consistent l)"

section \<open>Floats and integer division\<close>

lemma ilog2_le:
  assumes "0 < x"
  shows "2 powi ilog2 x \<le> x"
proof -
  obtain n d where q: "quotient_of x = (n, d)" by (cases "quotient_of x")
  then have d: "0 < d" by (rule quotient_of_denom_pos)
  have x: "x = of_int n / of_int d" using q by (rule quotient_of_div)
  have n: "0 < n"
    using assms d unfolding x by (simp add: zero_less_divide_iff)
  let ?k = "bitlen n - bitlen d"
  show ?thesis
  proof (cases "2 powi ?k \<le> x")
    case True
    then show ?thesis using q by (simp add: ilog2_def)
  next
    case False
    have bn: "1 \<le> bitlen n" using n by (simp add: bitlen_alt_def)
    have bd: "1 \<le> bitlen d" using d by (simp add: bitlen_alt_def)
    have ln: "2 ^ nat (bitlen n - 1) \<le> n" using bitlen_bounds [OF n] by simp
    have ud: "d < 2 ^ nat (bitlen d)" using bitlen_bounds [OF d] by simp
    have "(2::rat) powi (bitlen n - 1) \<le> of_int n"
    proof -
      have "(2::rat) powi (bitlen n - 1) = of_int (2 ^ nat (bitlen n - 1))"
        using bn by (simp add: power_int_def)
      also have "\<dots> \<le> of_int n" using ln by (simp only: of_int_le_iff)
      finally show ?thesis .
    qed
    moreover have "of_int d \<le> (2::rat) powi bitlen d"
    proof -
      have "(of_int d :: rat) \<le> of_int (2 ^ nat (bitlen d))" using ud by (simp only: of_int_le_iff less_imp_le)
      also have "\<dots> = (2::rat) powi bitlen d" using bd by (simp add: power_int_def)
      finally show ?thesis .
    qed
    moreover have "(2::rat) powi (?k - 1) = 2 powi (bitlen n - 1) / 2 powi bitlen d"
      by (simp add: power_int_diff)
    ultimately have "(2::rat) powi (?k - 1) \<le> of_int n / of_int d"
      using d n by (simp add: frac_le)
    then show ?thesis using q False x by (simp add: ilog2_def)
  qed
qed

lemma ilog2_bound:
  assumes "0 < x" and "x \<le> 2 ^ 1001"
  shows "ilog2 x \<le> 1001"
proof -
  have "(2::rat) powi 1001 = 2 ^ 1001" by (rule power_int_numeral)
  then have "x \<le> (2::rat) powi 1001" using assms(2) by (simp only:)
  with ilog2_le [OF assms(1)] have "(2::rat) powi ilog2 x \<le> 2 powi 1001" by (rule order_trans)
  then show ?thesis by (rule power_int_le_imp_le_exp [rotated]) simp_all
qed

lemma fl_finite:
  assumes "0 \<le> x" and "x \<le> 2 ^ 1001"
  shows "\<exists>r. fl x = Fin r"
proof (cases "x = 0")
  case True
  then show ?thesis by (simp add: fl_def)
next
  case False
  then have "0 < x" using assms(1) by simp
  then have "ilog2 \<bar>x\<bar> \<le> 1001" using assms(2) by (simp add: ilog2_bound)
  then have "max (ilog2 \<bar>x\<bar>) (- 1022) \<le> 1001" by simp
  then have "\<not> 1024 \<le> max (ilog2 \<bar>x\<bar>) (- 1022)" "max (ilog2 \<bar>x\<bar>) (- 1022) \<noteq> 1023"
    by linarith+
  then show ?thesis using False by (simp add: fl_def Let_def)
qed

lemma py_truediv_cases:
  "b \<noteq> 0 \<Longrightarrow> py_truediv a b = Inl OverflowError \<or> (\<exists>r. py_truediv a b = Inr (Fin r))"
  by (cases "fl (of_int a / of_int b)") (simp_all add: py_truediv_def)

lemma py_truediv_finite:
  assumes "0 \<le> a" and "a \<le> 2 ^ 1001" and "1 \<le> b"
  shows "\<exists>r. py_truediv a b = Inr (Fin r)"
proof -
  have "(of_int a :: rat) / of_int b \<le> of_int a"
    using assms(1,3) by (simp add: divide_le_eq mult_le_cancel_left1)
  also have "\<dots> \<le> of_int (2 ^ 1001)" using assms(2) by (simp only: of_int_le_iff)
  finally have "(of_int a :: rat) / of_int b \<le> 2 ^ 1001" by simp
  moreover have "0 \<le> (of_int a :: rat) / of_int b" using assms(1,3) by simp
  ultimately obtain r where "fl (of_int a / of_int b) = Fin r" using fl_finite by blast
  then show ?thesis using assms(3) by (simp add: py_truediv_def)
qed

lemma clamp_range:
  "\<exists>c. py_max (Fin 0) (py_min (Fin 100) x) = Fin c \<and> 0 \<le> c \<and> c \<le> 100"
  by (cases x) (auto simp add: py_max_def py_min_def)

lemma dom_penalty_cases:
  "dom_penalty item = Inl OverflowError \<or> (\<exists>r. dom_penalty item = Inr (Fin r))"
  unfolding dom_penalty_def by (rule py_truediv_cases) simp

lemma miles_penalty_cases:
  "miles_penalty item = Inl OverflowError \<or> (\<exists>r. miles_penalty item = Inr (Fin r))"
  unfolding miles_penalty_def by (rule py_truediv_cases) simp

lemma dom_penalty_finite:
  assumes "- (2 ^ 1000) \<le> Listing.dom_days item"
  shows "\<exists>r. dom_penalty item = Inr (Fin r)"
proof -
  have "max 0 (30 - Listing.dom_days item) \<le> 30 + 2 ^ 1000" using assms by simp
  also have "\<dots> \<le> (2::int) ^ 1001" by simp
  finally show ?thesis unfolding dom_penalty_def by (intro py_truediv_finite) simp_all
qed

lemma miles_penalty_finite:
  assumes "- (2 ^ 1000) \<le> Listing.miles item"
  shows "\<exists>r. miles_penalty item = Inr (Fin r)"
proof -
  have "max 0 (100000 - Listing.miles item) \<le> 100000 + 2 ^ 1000" using assms by simp
  also have "\<dots> \<le> (2::int) ^ 1001" by simp
  finally show ?thesis unfolding miles_penalty_def by (intro py_truediv_finite) simp_all
qed

lemma score_val_clamped:
  "\<exists>c. clamped dp mp item = Fin c \<and> 0 \<le> c \<and> c \<le> 100 \<and> score_val dp mp item = Inr \<lfloor>c\<rfloor>"
proof -
  obtain c where "clamped dp mp item = Fin c" "0 \<le> c" "c \<le> 100"
    unfolding clamped_def using clamp_range by blast
  then show ?thesis by (simp add: score_val_def)
qed

lemma scored_cases:
  "scored item = Inl OverflowError \<or>
   (\<exists>dp mp c. dom_penalty item = Inr dp \<and> miles_penalty item = Inr mp \<and>
      clamped dp mp item = Fin c \<and> 0 \<le> c \<and> c \<le> 100 \<and>
      scored item = Inr (\<lfloor>c\<rfloor>, round2 (buy_max item), reason_codes item))"
proof -
  consider "dom_penalty item = Inl OverflowError"
    | dp where "dom_penalty item = Inr dp" "miles_penalty item = Inl OverflowError"
    | dp mp where "dom_penalty item = Inr dp" "miles_penalty item = Inr mp"
    using dom_penalty_cases [of item] miles_penalty_cases [of item] by blast
  then show ?thesis
  proof cases
    case 1
    then show ?thesis by (simp add: scored_def)
  next
    case 2
    then show ?thesis by (simp add: scored_def)
  next
    case 3
    obtain c where "clamped dp mp item = Fin c" "0 \<le> c" "c \<le> 100"
      "score_val dp mp item = Inr \<lfloor>c\<rfloor>"
      using score_val_clamped by blast
    then show ?thesis using 3 by (simp add: scored_def)
  qed
qed

lemma scored_returns:
  assumes "- (2 ^ 1000) \<le> Listing.dom_days item" and "- (2 ^ 1000) \<le> Listing.miles item"
  shows "scored item \<noteq> Inl e"
proof -
  obtain r1 r2 where "dom_penalty item = Inr (Fin r1)" "miles_penalty item = Inr (Fin r2)"
    using dom_penalty_finite [OF assms(1)] miles_penalty_finite [OF assms(2)] by blast
  moreover obtain c :: rat where "score_val (Fin r1) (Fin r2) item = Inr \<lfloor>c\<rfloor>"
    using score_val_clamped by blast
  ultimately show ?thesis by (simp add: scored_def)
qed

lemma scored_Inr:
  assumes "scored item = Inr (sv, bm, codes)"
  shows "0 \<le> sv \<and> sv \<le> 100 \<and> bm = round2 (buy_max item) \<and> codes = reason_codes item"
proof -
  from scored_cases [of item] assms obtain c :: rat where "0 \<le> c" "c \<le> 100" "sv = \<lfloor>c\<rfloor>"
    "bm = round2 (buy_max item)" "codes = reason_codes item"
    by auto
  then show ?thesis by (simp add: floor_le_iff)
qed

subsection \<open>Strings\<close>

lemma is_space_upper_char: "is_space (upper_char c) = is_space c"
proof -
  have "of_char (char_of (of_char c - (32::nat))) = (of_char c - 32 :: nat)"
    if "97 \<le> (of_char c :: nat)" "(of_char c :: nat) \<le> 122"
  proof -
    have "(of_char c :: nat) - 32 < 256" using that by linarith
    then show ?thesis by (simp add: of_char_of)
  qed
  then show ?thesis
    by (auto simp add: is_space_def upper_char_def Let_def)
qed

lemma upper_char_fixed:
  "\<not> (97 \<le> (of_char d :: nat) \<and> (of_char d :: nat) \<le> 122) \<Longrightarrow> upper_char d = d"
  by (auto simp add: upper_char_def Let_def)

lemma upper_char_not_lower:
  "\<not> (97 \<le> (of_char (upper_char c) :: nat) \<and> (of_char (upper_char c) :: nat) \<le> 122)"
proof (cases "97 \<le> (of_char c :: nat) \<and> (of_char c :: nat) \<le> 122")
  case True
  then have "(of_char c :: nat) - 32 < 256" by linarith
  then have "of_char (char_of (of_char c - (32::nat))) = (of_char c - 32 :: nat)"
    by (simp add: of_char_of)
  moreover have "upper_char c = char_of ((of_char c :: nat) - 32)"
    using True by (simp add: upper_char_def Let_def)
  ultimately have "(of_char (upper_char c) :: nat) = of_char c - 32" by simp
  then show ?thesis using True by linarith
next
  case False
  then show ?thesis by (auto simp add: upper_char_def Let_def)
qed

lemma upper_char_idem: "upper_char (upper_char c) = upper_char c"
  by (rule upper_char_fixed) (rule upper_char_not_lower)

lemma upper_idem: "upper (upper s) = upper s"
  by (simp add: upper_def upper_char_idem)

lemma dropWhile_space_upper: "dropWhile is_space (upper s) = upper (dropWhile is_space s)"
  by (induction s) (simp_all add: upper_def is_space_upper_char)

lemma strip_upper: "strip (upper s) = upper (strip s)"
proof -
  have "rev (upper s) = upper (rev s)" for s by (simp add: upper_def rev_map)
  then show ?thesis
    by (metis dropWhile_space_upper strip_def rev_rev_ident)
qed

lemma dropWhile_rev_strip: "dropWhile is_space (rev (strip s)) = rev (strip s)"
  by (simp add: strip_def)

lemma strip_prefix: "\<exists>ws. dropWhile is_space s = strip s @ ws"
proof -
  let ?ys = "dropWhile is_space s"
  have "rev ?ys = takeWhile is_space (rev ?ys) @ dropWhile is_space (rev ?ys)" by simp
  then have "?ys = rev (dropWhile is_space (rev ?ys)) @ rev (takeWhile is_space (rev ?ys))"
    by (metis rev_append rev_rev_ident)
  then show ?thesis by (auto simp add: strip_def)
qed

lemma dropWhile_strip: "dropWhile is_space (strip s) = strip s"
proof (cases "strip s")
  case Nil
  then show ?thesis by simp
next
  case (Cons c cs)
  obtain ws where ws: "dropWhile is_space s = strip s @ ws" using strip_prefix by blast
  then have "hd (dropWhile is_space s) = c" using Cons by simp
  moreover have "dropWhile is_space s \<noteq> []" using ws Cons by simp
  ultimately have "\<not> is_space c" using hd_dropWhile by blast
  then show ?thesis using Cons by simp
qed

lemma strip_idem: "strip (strip s) = strip s"
proof -
  have "strip (strip s) = rev (dropWhile is_space (rev (strip s)))"
    by (simp add: dropWhile_strip strip_def[of "strip s"])
  then show ?thesis by (simp add: dropWhile_rev_strip)
qed

lemma vin_key_idem: "vin_key (vin_key v) = vin_key v"
  by (simp add: vin_key_def strip_upper upper_idem strip_idem)

lemma normalize_idem: "normalize (normalize x) = normalize x"
  by (cases "trim x") (simp_all add: normalize_def strip_upper upper_idem strip_idem)

lemma strip_all_space:
  assumes "\<forall>c\<in>set s. is_space c"
  shows "strip s = []"
proof -
  have "dropWhile is_space s = []" using assms by simp
  then have "rev (dropWhile is_space (rev (dropWhile is_space s))) = rev (dropWhile is_space (rev []))"
    by (rule arg_cong)
  then show ?thesis unfolding strip_def by simp
qed

lemma strip_pad_left: "\<forall>c\<in>set pre. is_space c \<Longrightarrow> strip (pre @ s) = strip s"
  by (simp add: strip_def dropWhile_append2)

lemma strip_pad_right:
  assumes "\<forall>c\<in>set suf. is_space c"
  shows "strip (s @ suf) = strip s"
proof (cases "\<forall>c\<in>set s. is_space c")
  case True
  with assms have "\<forall>c\<in>set (s @ suf). is_space c" by auto
  then show ?thesis using True by (simp only: strip_all_space)
next
  case False
  then obtain x where x: "x \<in> set s" "\<not> is_space x" by blast
  then have "dropWhile is_space (s @ suf) = dropWhile is_space s @ suf"
    by (rule dropWhile_append1)
  moreover have "dropWhile is_space (rev suf @ ys) = dropWhile is_space ys" for ys
    using assms by (intro dropWhile_append2) simp
  ultimately show ?thesis by (simp add: strip_def)
qed

subsection \<open>The scoring loop\<close>

lemma apply_score_idem:
  "apply_score sv bm codes (apply_score sv bm codes l) = apply_score sv bm codes l"
  by (simp add: apply_score_def)

lemma apply_score_vin: "StoredListing.vin (apply_score sv bm codes l) = StoredListing.vin l"
  by (simp add: apply_score_def)

lemma apply_score_carries: "carries (apply_score sv bm codes l) (sv, bm, codes)"
  by (simp add: apply_score_def carries_def)

lemma persist_score_keys: "map fst (persist_score sv bm codes lids m) = map fst m"
proof (induction lids arbitrary: m)
  case Nil
  then show ?case by simp
next
  case (Cons lid lids)
  show ?case
  proof (cases "map_of m lid")
    case None
    then show ?thesis using Cons.IH by simp
  next
    case (Some stored)
    then have "lid \<in> set (map fst m)"
      by (metis map_of_SomeD fst_conv image_eqI set_map)
    then show ?thesis using Some Cons.IH by (simp add: update_keys)
  qed
qed

lemma persist_score_lookup:
  "map_of (persist_score sv bm codes lids m) k =
     (if k \<in> set lids then map_option (apply_score sv bm codes) (map_of m k) else map_of m k)"
proof (induction lids arbitrary: m)
  case Nil
  then show ?case by simp
next
  case (Cons lid lids)
  show ?case
  proof (cases "map_of m lid")
    case None
    then show ?thesis using Cons.IH [of m] by auto
  next
    case (Some stored)
    then show ?thesis
      using Cons.IH [of "AList.update lid (apply_score sv bm codes stored) m"]
      by (auto simp add: update_conv' apply_score_idem)
  qed
qed

text \<open>The store that one pass of the loop leaves on the memory backend.\<close>

lemma score_item_raises:
  "scored item = Inl e \<Longrightarrow> score_item dbo s item = ((dbo, s), Inl e)"
  by (simp add: score_item_def)

lemma score_item_memory:
  "scored item = Inr (sv, bm, codes) \<Longrightarrow>
   score_item None s item =
     ((None, s\<lparr>by_id := persist_score sv bm codes (matching_ids s item) (by_id s)\<rparr>),
      Inr \<lparr>ScoreResponse.vin = Listing.vin item, ScoreResponse.score = sv,
           ScoreResponse.buyMax = bm, ScoreResponse.reasonCodes = codes\<rparr>)"
  by (simp add: score_item_def record_score_def)

lemma score_item_index: "ids_by_vin (snd (fst (score_item dbo s item))) = ids_by_vin s"
  by (auto simp add: score_item_def split: sum.splits prod.splits)

lemma score_item_keys: "map fst (by_id (snd (fst (score_item dbo s item)))) = map fst (by_id s)"
  by (auto simp add: score_item_def persist_score_keys split: sum.splits prod.splits)

lemma score_item_lookup:
  "map_of (by_id (snd (fst (score_item dbo s item)))) k = map_of (by_id s) k \<or>
   (\<exists>sv bm codes. scored item = Inr (sv, bm, codes) \<and> k \<in> set (matching_ids s item) \<and>
      map_of (by_id (snd (fst (score_item dbo s item)))) k =
        map_option (apply_score sv bm codes) (map_of (by_id s) k))"
  by (auto simp add: score_item_def persist_score_lookup split: sum.splits prod.splits)

lemma score_item_lookup_Some:
  assumes "map_of (by_id (snd (fst (score_item dbo s item)))) k = Some l"
  shows "map_of (by_id s) k = Some l \<or>
         (\<exists>sv bm codes l0. scored item = Inr (sv, bm, codes) \<and> k \<in> set (matching_ids s item) \<and>
            map_of (by_id s) k = Some l0 \<and> l = apply_score sv bm codes l0)"
  using score_item_lookup [of dbo s item k] assms
  by (cases "map_of (by_id s) k") auto

lemma score_item_lookup_None:
  "map_of (by_id (snd (fst (score_item dbo s item)))) k = None \<longleftrightarrow> map_of (by_id s) k = None"
  using score_item_lookup [of dbo s item k]
  by (cases "map_of (by_id s) k") auto

lemma score_item_returns_lookup:
  assumes "snd (score_item dbo s item) = Inr r"
  shows "\<exists>sv bm codes. scored item = Inr (sv, bm, codes) \<and>
           r = \<lparr>ScoreResponse.vin = Listing.vin item, ScoreResponse.score = sv,
                ScoreResponse.buyMax = bm, ScoreResponse.reasonCodes = codes\<rparr> \<and>
           (\<forall>k. map_of (by_id (snd (fst (score_item dbo s item)))) k =
              (if k \<in> set (matching_ids s item)
               then map_option (apply_score sv bm codes) (map_of (by_id s) k)
               else map_of (by_id s) k))"
  using assms
  by (auto simp add: score_item_def persist_score_lookup split: sum.splits prod.splits)

lemma score_listings_Cons_store:
  "snd (fst (score_listings None s (item # listings))) =
     (case scored item of Inl e \<Rightarrow> s
      | Inr h \<Rightarrow> snd (fst (score_listings None (snd (fst (score_item None s item))) listings)))"
  by (cases "scored item")
    (auto simp add: score_item_raises score_item_memory split: sum.splits prod.splits)

lemma score_listings_invariant:
  assumes step: "\<And>s item. P s \<Longrightarrow> P (snd (fst (score_item None s item)))"
    and "P s"
  shows "P (snd (fst (score_listings None s items)))"
  using assms(2)
proof (induction items arbitrary: s)
  case Nil
  then show ?case by simp
next
  case (Cons item items)
  show ?case
  proof (cases "scored item")
    case (Inl e)
    then show ?thesis unfolding score_listings_Cons_store using Cons.prems by simp
  next
    case (Inr h)
    have "P (snd (fst (score_item None s item)))" using Cons.prems by (rule step)
    then have "P (snd (fst (score_listings None (snd (fst (score_item None s item))) items)))"
      by (rule Cons.IH)
    then show ?thesis unfolding score_listings_Cons_store using Inr by simp
  qed
qed


lemma score_listings_append_returns:
  assumes "snd (score_listings None s (items @ [item])) = Inr out"
  shows "snd (score_item None (snd (fst (score_listings None s items))) item) \<noteq> Inl e \<and>
         snd (fst (score_listings None s (items @ [item]))) =
           snd (fst (score_item None (snd (fst (score_listings None s items))) item))"
  using assms
proof (induction items arbitrary: s out)
  case Nil
  then show ?case by (auto split: sum.splits prod.splits)
next
  case (Cons i items)
  show ?case
  proof (cases "scored i")
    case (Inl e')
    then show ?thesis using Cons.prems by (simp add: score_item_raises)
  next
    case (Inr h)
    obtain sv bm codes where h: "h = (sv, bm, codes)" by (metis prod_cases3)
    let ?s1 = "s\<lparr>by_id := persist_score sv bm codes (matching_ids s i) (by_id s)\<rparr>"
    have si: "score_item None s i = ((None, ?s1),
        Inr \<lparr>ScoreResponse.vin = Listing.vin i, ScoreResponse.score = sv,
             ScoreResponse.buyMax = bm, ScoreResponse.reasonCodes = codes\<rparr>)"
      using Inr h by (simp add: score_item_memory)
    obtain out' where "snd (score_listings None ?s1 (items @ [item])) = Inr out'"
      using Cons.prems si by (auto split: sum.splits prod.splits)
    then have "snd (score_item None (snd (fst (score_listings None ?s1 items))) item) \<noteq> Inl e \<and>
         snd (fst (score_listings None ?s1 (items @ [item]))) =
           snd (fst (score_item None (snd (fst (score_listings None ?s1 items))) item))"
      by (rule Cons.IH)
    then show ?thesis using si by (auto split: sum.splits prod.splits)
  qed
qed

subsection \<open>Ingestion\<close>

lemma normalize_id: "id_str (normalize item) = id_str item"
  by (simp add: normalize_def)

lemma normalize_vin: "StoredListing.vin (normalize item) = vin_key (StoredListing.vin item)"
  by (simp add: normalize_def vin_key_def)

lemma ingest_item_lookup:
  "map_of (by_id (ingest_item s item)) k =
     (if k = id_str item then Some (normalize item) else map_of (by_id s) k)"
  by (simp add: ingest_item_def Let_def update_conv' normalize_id)

lemma ingest_item_ids:
  "get_ids (ids_by_vin (ingest_item s item)) v =
     (if v = vin_key (StoredListing.vin item)
      then (if id_str item \<in> set (get_ids (ids_by_vin s) v) then get_ids (ids_by_vin s) v
            else get_ids (ids_by_vin s) v @ [id_str item])
      else get_ids (ids_by_vin s) v)"
  by (auto simp add: ingest_item_def Let_def get_ids_def update_conv' normalize_id normalize_vin
      split: option.splits)

lemma ingest_item_keys: "distinct (map fst (by_id s)) \<Longrightarrow> distinct (map fst (by_id (ingest_item s item)))"
  by (simp add: ingest_item_def Let_def distinct_update)

lemma ingest_snd: "snd (ingest s listings) = map normalize listings"
  by (induction listings arbitrary: s) (simp_all add: split_beta)

lemma run_Nil: "run [] s = s"
  by (simp add: run_def)

lemma run_Cons: "run (req # reqs) s = run reqs (handle s req)"
  by (simp add: run_def)

subsection \<open>Invariants of the store\<close>

lemma linked_ingest_item_new:
  "linked (ingest_item s item) (vin_key (StoredListing.vin item)) (id_str item)"
  by (simp add: linked_def ingest_item_lookup ingest_item_ids)

lemma linked_ingest_item: "linked s v lid \<Longrightarrow> linked (ingest_item s item) v lid"
  by (auto simp add: linked_def ingest_item_lookup ingest_item_ids)

lemma linked_score_item:
  assumes "linked s v lid"
  shows "linked (snd (fst (score_item dbo s item))) v lid"
  using assms by (simp add: linked_def score_item_index score_item_lookup_None)

lemma linked_ingest: "linked s v lid \<Longrightarrow> linked (fst (ingest s listings)) v lid"
  by (induction listings arbitrary: s) (simp_all add: split_beta linked_ingest_item)

lemma linked_score_listings:
  "linked s v lid \<Longrightarrow> linked (snd (fst (score_listings None s items))) v lid"
  by (rule score_listings_invariant [where P = "\<lambda>s. linked s v lid"]) (rule linked_score_item)

lemma linked_handle: "linked s v lid \<Longrightarrow> linked (handle s req) v lid"
  by (cases req) (simp_all add: linked_ingest linked_score_listings)

lemma linked_run: "linked s v lid \<Longrightarrow> linked (run reqs s) v lid"
  by (induction reqs arbitrary: s) (simp_all add: run_Nil run_Cons linked_handle)

lemma linked_ingest_member:
  "raw \<in> set listings \<Longrightarrow>
   linked (fst (ingest s listings)) (vin_key (StoredListing.vin raw)) (id_str raw)"
proof (induction listings arbitrary: s)
  case Nil
  then show ?case by simp
next
  case (Cons item listings)
  show ?case
  proof (cases "raw \<in> set listings")
    case True
    then show ?thesis using Cons.IH by (simp add: split_beta)
  next
    case False
    then have "raw = item" using Cons.prems by simp
    then show ?thesis
      by (simp add: split_beta linked_ingest linked_ingest_item_new)
  qed
qed

lemma linked_scored:
  assumes "linked s (vin_key (Listing.vin item)) lid"
    and "scored item = Inr (sv, bm, codes)"
  shows "\<exists>l0. map_of (by_id s) lid = Some l0 \<and>
              map_of (by_id (snd (fst (score_item None s item)))) lid =
                Some (apply_score sv bm codes l0)"
  using assms
  by (auto simp add: linked_def score_item_memory persist_score_lookup matching_ids_def)

lemma indexed_empty: "indexed empty_store"
  by (simp add: indexed_def empty_store_def)

lemma indexed_ingest_item:
  assumes "indexed s"
  shows "indexed (ingest_item s item)"
proof -
  have d: "distinct (map fst (by_id s))"
    and i: "\<And>lid l. map_of (by_id s) lid = Some l \<Longrightarrow>
              lid \<in> set (get_ids (ids_by_vin s) (StoredListing.vin l))"
    using assms by (simp_all only: indexed_def)
  have "lid \<in> set (get_ids (ids_by_vin (ingest_item s item)) (StoredListing.vin l))"
    if "map_of (by_id (ingest_item s item)) lid = Some l" for lid l
  proof (cases "lid = id_str item")
    case True
    then have "l = normalize item" using that by (simp add: ingest_item_lookup)
    then show ?thesis using True by (simp add: ingest_item_ids normalize_vin)
  next
    case False
    then have "map_of (by_id s) lid = Some l" using that by (simp add: ingest_item_lookup)
    then have "lid \<in> set (get_ids (ids_by_vin s) (StoredListing.vin l))" by (rule i)
    then show ?thesis by (auto simp add: ingest_item_ids)
  qed
  then show ?thesis
    unfolding indexed_def using d by (blast intro: ingest_item_keys)
qed

lemma indexed_score_item:
  assumes "indexed s"
  shows "indexed (snd (fst (score_item dbo s item)))"
proof -
  let ?s' = "snd (fst (score_item dbo s item))"
  have d: "distinct (map fst (by_id s))"
    and i: "\<And>lid l. map_of (by_id s) lid = Some l \<Longrightarrow>
              lid \<in> set (get_ids (ids_by_vin s) (StoredListing.vin l))"
    using assms by (simp_all only: indexed_def)
  have "lid \<in> set (get_ids (ids_by_vin ?s') (StoredListing.vin l))"
    if h: "map_of (by_id ?s') lid = Some l" for lid l
  proof -
    obtain l0 where l0: "map_of (by_id s) lid = Some l0"
      and v: "StoredListing.vin l = StoredListing.vin l0"
      using score_item_lookup_Some [OF h] by (auto simp add: apply_score_vin)
    from l0 have "lid \<in> set (get_ids (ids_by_vin s) (StoredListing.vin l0))" by (rule i)
    then show ?thesis by (simp add: score_item_index v)
  qed
  then show ?thesis
    unfolding indexed_def using d by (simp add: score_item_keys)
qed

lemma indexed_ingest: "indexed s \<Longrightarrow> indexed (fst (ingest s listings))"
  by (induction listings arbitrary: s) (simp_all add: split_beta indexed_ingest_item)

lemma indexed_score_listings: "indexed s \<Longrightarrow> indexed (snd (fst (score_listings None s items)))"
  by (rule score_listings_invariant [where P = indexed]) (rule indexed_score_item)

lemma indexed_handle: "indexed s \<Longrightarrow> indexed (handle s req)"
  by (cases req) (simp_all add: indexed_ingest indexed_score_listings)

lemma indexed_run: "indexed s \<Longrightarrow> indexed (run reqs s)"
  by (induction reqs arbitrary: s) (simp_all add: run_Nil run_Cons indexed_handle)

lemma listed_lookup:
  "distinct (map fst (by_id s)) \<Longrightarrow> l \<in> set (list_listings s) \<Longrightarrow>
   \<exists>lid. map_of (by_id s) lid = Some l"
  by (auto simp add: list_listings_def)

subsection \<open>VIN matching\<close>

lemma same_letters_upper: "same_letters a b \<Longrightarrow> upper a = upper b"
  unfolding same_letters_def upper_def
  by (induction a b rule: list_all2_induct) simp_all

lemma vin_key_pad:
  assumes "list_all is_space pre" and "list_all is_space suf"
  shows "vin_key (pre @ core @ suf) = vin_key core"
proof -
  have "strip (pre @ core @ suf) = strip (core @ suf)"
    using assms(1) by (simp add: strip_pad_left list_all_iff)
  also have "\<dots> = strip core"
    using assms(2) by (simp add: strip_pad_right list_all_iff)
  finally show ?thesis by (simp add: vin_key_def)
qed

lemma vin_equiv_key: "vin_equiv a b \<Longrightarrow> vin_key a = vin_key b"
proof -
  assume "vin_equiv a b"
  then obtain pa ca sa pb cb sb where
    a: "a = pa @ ca @ sa" and b: "b = pb @ cb @ sb" and
    sp: "list_all is_space pa" "list_all is_space sa" "list_all is_space pb" "list_all is_space sb" and
    c: "same_letters ca cb"
    unfolding vin_equiv_def by blast
  have "vin_key a = strip (upper ca)"
    using a sp by (simp add: vin_key_pad) (simp add: vin_key_def strip_upper)
  also have "\<dots> = strip (upper cb)" using c by (simp add: same_letters_upper)
  also have "\<dots> = vin_key b"
    using b sp by (simp add: vin_key_pad) (simp add: vin_key_def strip_upper)
  finally show ?thesis .
qed

subsection \<open>Consistency of the score fields\<close>

lemma reason_codes_nonempty: "reason_codes item \<noteq> []"
  by (simp add: reason_codes_def)

lemma aged_reason: "45 < Listing.dom_days item \<Longrightarrow> ''AgedInventory'' \<in> set (reason_codes item)"
  by (simp add: reason_codes_def reasons_def)

lemma score_consistent_apply: "codes \<noteq> [] \<Longrightarrow> score_consistent (apply_score sv bm codes l)"
  by (simp add: score_consistent_def apply_score_def)

lemma score_consistent_normalize: "score_consistent (normalize l) = score_consistent l"
  by (simp add: score_consistent_def normalize_def)

lemma all_consistent_ingest_item:
  "all_consistent s \<Longrightarrow> score_consistent item \<Longrightarrow> all_consistent (ingest_item s item)"
  by (auto simp add: all_consistent_def ingest_item_lookup score_consistent_normalize split: if_splits)

lemma all_consistent_score_item:
  assumes "all_consistent s"
  shows "all_consistent (snd (fst (score_item dbo s item)))"
proof -
  have "score_consistent l" if h: "map_of (by_id (snd (fst (score_item dbo s item)))) lid = Some l"
    for lid l
  proof -
    from score_item_lookup_Some [OF h]
    consider "map_of (by_id s) lid = Some l"
      | sv bm codes l0 where "scored item = Inr (sv, bm, codes)" "l = apply_score sv bm codes l0"
      by auto
    then show ?thesis
    proof cases
      case 1
      then show ?thesis using assms by (simp add: all_consistent_def)
    next
      case 2
      from 2(1) have "codes = reason_codes item" using scored_Inr by blast
      then show ?thesis using 2(2) by (simp add: score_consistent_apply reason_codes_nonempty)
    qed
  qed
  then show ?thesis by (simp add: all_consistent_def)
qed

lemma all_consistent_ingest:
  "all_consistent s \<Longrightarrow> list_all score_consistent listings \<Longrightarrow>
   all_consistent (fst (ingest s listings))"
  by (induction listings arbitrary: s) (simp_all add: split_beta all_consistent_ingest_item)

lemma all_consistent_score_listings:
  "all_consistent s \<Longrightarrow> all_consistent (snd (fst (score_listings None s items)))"
  by (rule score_listings_invariant [where P = all_consistent]) (rule all_consistent_score_item)

lemma all_consistent_run:
  "all_consistent s \<Longrightarrow> list_all score_consistent (ingested reqs) \<Longrightarrow>
   all_consistent (run reqs s)"
proof (induction reqs arbitrary: s)
  case Nil
  then show ?case by (simp add: run_Nil)
next
  case (Cons req reqs)
  show ?case
  proof (cases req)
    case (Ingest listings)
    then show ?thesis
      using Cons.prems Cons.IH [of "handle s req"] by (simp add: run_Cons all_consistent_ingest)
  next
    case (Score items)
    then show ?thesis
      using Cons.prems Cons.IH [of "handle s req"] by (simp add: run_Cons all_consistent_score_listings)
  qed
qed

section \<open>The worked example of the scoring heuristic\<close>

lemma scored_example:
  "scored example_fact = Inr (59, Fin 20600, [''PriceVsBaseline'', ''LowDOM'', ''LowMiles''])"
  by code_simp

lemma scored_aged: "scored aged_fact = Inr (15, Fin 9800, [''PriceVsBaseline'', ''AgedInventory''])"
  by code_simp

lemma scored_other: "scored other_fact = Inr (22, Fin 30900, [''Heuristic''])"
  by code_simp

lemma score_listings_memory_single:
  "scored item = Inr (sv, bm, codes) \<Longrightarrow>
   score_listings None s [item] =
     ((None, s\<lparr>by_id := persist_score sv bm codes (matching_ids s item) (by_id s)\<rparr>),
      Inr [\<lparr>ScoreResponse.vin = Listing.vin item, ScoreResponse.score = sv,
            ScoreResponse.buyMax = bm, ScoreResponse.reasonCodes = codes\<rparr>])"
  by (simp add: score_item_memory)

lemma response_example:
  "snd (score_listings None s [example_fact]) =
     Inr [\<lparr>ScoreResponse.vin = ''X1'', ScoreResponse.score = 59, ScoreResponse.buyMax = Fin 20600,
           ScoreResponse.reasonCodes = [''PriceVsBaseline'', ''LowDOM'', ''LowMiles'']\<rparr>]"
proof -
  have "snd (score_listings None s [example_fact]) =
     Inr [\<lparr>ScoreResponse.vin = Listing.vin example_fact, ScoreResponse.score = 59,
           ScoreResponse.buyMax = Fin 20600,
           ScoreResponse.reasonCodes = [''PriceVsBaseline'', ''LowDOM'', ''LowMiles'']\<rparr>]"
    by (simp only: score_listings_memory_single [OF scored_example] snd_conv)
  moreover have "Listing.vin example_fact = ''X1''" by (simp add: example_fact_def)
  ultimately show ?thesis by (simp only:)
qed

text \<open>
  C2. For price = 20000, miles = 30000 and dom = 10 the score operation answers with
  score 59, buyMax 20600.00 and the reason codes PriceVsBaseline, LowDOM, LowMiles, in
  that order.
\<close>

theorem score_example:
  "scored example_fact = Inr (59, Fin 20600, [''PriceVsBaseline'', ''LowDOM'', ''LowMiles'']) \<and>
   snd (score_listings None s [example_fact]) =
     Inr [\<lparr>ScoreResponse.vin = ''X1'', ScoreResponse.score = 59, ScoreResponse.buyMax = Fin 20600,
           ScoreResponse.reasonCodes = [''PriceVsBaseline'', ''LowDOM'', ''LowMiles'']\<rparr>]"
  using scored_example response_example [of s] by (simp only: simp_thms)

section \<open>The score is the clamped sum, truncated\<close>




section \<open>Normalisation is idempotent\<close>

text \<open>
  C9. Normalising twice is normalising once: \<open>normalize (normalize x) = normalize x\<close>
  for every raw listing; so ingesting what an ingestion returned returns it unchanged.
\<close>

theorem normalize_idempotent:
  "normalize (normalize x) = normalize x \<and>
   snd (ingest s' (snd (ingest s listings))) = snd (ingest s listings)"
  by (simp add: ingest_snd normalize_idem)

section \<open>Ingest, then score\<close>

text \<open>
  C3. A raw listing is ingested in some batch, and later, after any further requests, a
  fact is scored whose VIN differs from the listing's only in letter case and surrounding
  whitespace. Then the scoring pass finds a stored listing under the raw listing's id and
  writes the fact's score, buyMax and reason codes into it. When the scoring follows the
  ingestion of that listing directly, the stored listing is the normalised raw listing
  with the three fields set. The one call that writes nothing is a call that never
  reaches the scoring pass: the integer division of the heuristic raises OverflowError,
  which needs dom or miles below \<open>- 2 ^ 1000\<close>, outside the non-negative values of the
  data model.
\<close>

theorem ingest_then_score_linked:
  assumes "raw \<in> set listings"
    and "vin_equiv (StoredListing.vin raw) (Listing.vin item)"
  shows "case scored item of
           Inl e \<Rightarrow>
             e = OverflowError \<and>
             (Listing.dom_days item < - (2 ^ 1000) \<or> Listing.miles item < - (2 ^ 1000)) \<and>
             score_listings None (run reqs (fst (ingest s listings))) [item] =
               ((None, run reqs (fst (ingest s listings))), Inl OverflowError)
         | Inr (sv, bm, codes) \<Rightarrow>
             bm = round2 (buy_max item) \<and> codes = reason_codes item \<and>
             map_option (\<lambda>l. (StoredListing.score l, StoredListing.buyMax l, StoredListing.reasonCodes l))
               (map_of (by_id (snd (fst (score_listings None (run reqs (fst (ingest s listings))) [item]))))
                  (id_str raw)) =
             Some (Some sv, Some bm, codes) \<and>
             map_of (by_id (snd (fst (score_listings None (fst (ingest s [raw])) [item])))) (id_str raw) =
             Some (apply_score sv bm codes (normalize raw))"
proof (cases "scored item")
  case (Inl e)
  then have "e = OverflowError" using scored_cases [of item] by auto
  moreover have "Listing.dom_days item < - (2 ^ 1000) \<or> Listing.miles item < - (2 ^ 1000)"
    using scored_returns [of item e] Inl by linarith
  moreover have "score_listings None (run reqs (fst (ingest s listings))) [item] =
               ((None, run reqs (fst (ingest s listings))), Inl e)"
    using Inl by (simp add: score_item_raises)
  ultimately show ?thesis using Inl by simp
next
  case (Inr h)
  obtain sv bm codes where h: "h = (sv, bm, codes)" by (metis prod_cases3)
  then have sc: "scored item = Inr (sv, bm, codes)" using Inr by simp
  then have vals: "bm = round2 (buy_max item)" "codes = reason_codes item"
    using scored_Inr by blast+
  have k: "vin_key (StoredListing.vin raw) = vin_key (Listing.vin item)"
    using assms(2) by (rule vin_equiv_key)
  have "linked (fst (ingest s listings)) (vin_key (Listing.vin item)) (id_str raw)"
    using linked_ingest_member [OF assms(1)] k by simp
  then have "linked (run reqs (fst (ingest s listings))) (vin_key (Listing.vin item)) (id_str raw)"
    by (rule linked_run)
  then obtain l0 where
    "map_of (by_id (snd (fst (score_item None (run reqs (fst (ingest s listings))) item)))) (id_str raw) =
       Some (apply_score sv bm codes l0)"
    using linked_scored [OF _ sc] by blast
  then have first: "map_option (\<lambda>l. (StoredListing.score l, StoredListing.buyMax l, StoredListing.reasonCodes l))
           (map_of (by_id (snd (fst (score_listings None (run reqs (fst (ingest s listings))) [item]))))
              (id_str raw)) =
         Some (Some sv, Some bm, codes)"
    using sc by (simp add: score_item_memory apply_score_def)
  have "linked (ingest_item s raw) (vin_key (Listing.vin item)) (id_str raw)"
    using linked_ingest_item_new [of s raw] k by simp
  then obtain l1 where "map_of (by_id (ingest_item s raw)) (id_str raw) = Some l1"
    and "map_of (by_id (snd (fst (score_item None (ingest_item s raw) item)))) (id_str raw) =
           Some (apply_score sv bm codes l1)"
    using linked_scored [OF _ sc] by blast
  then have "map_of (by_id (snd (fst (score_listings None (fst (ingest s [raw])) [item])))) (id_str raw) =
         Some (apply_score sv bm codes (normalize raw))"
    using sc by (simp add: ingest_item_lookup score_item_memory)
  with first vals sc show ?thesis by simp
qed

lemma vin_equiv_example: "vin_equiv (StoredListing.vin listing_a) (Listing.vin example_fact)"
proof -
  have "'' x1 '' = '' '' @ ''x1'' @ '' ''" "''X1'' = [] @ ''X1'' @ []" by simp_all
  moreover have "same_letters ''x1'' ''X1''" by code_simp
  moreover have "list_all is_space '' ''" by code_simp
  moreover have "list_all is_space []" by simp
  ultimately have "vin_equiv '' x1 '' ''X1''" unfolding vin_equiv_def by blast
  then show ?thesis by (simp add: listing_a_def example_fact_def)
qed

theorem ingest_then_score_linked_witness:
  "listing_a \<in> set [listing_a] \<and>
   vin_equiv (StoredListing.vin listing_a) (Listing.vin example_fact) \<and>
   scored example_fact = Inr (59, Fin 20600, [''PriceVsBaseline'', ''LowDOM'', ''LowMiles'']) \<and>
   map_of (by_id (snd (fst (score_listings None (fst (ingest empty_store [listing_a])) [example_fact]))))
     (id_str listing_a) =
   Some (apply_score 59 (Fin 20600) [''PriceVsBaseline'', ''LowDOM'', ''LowMiles''] (normalize listing_a))"
proof -
  have m: "listing_a \<in> set [listing_a]" by simp
  show ?thesis
    using ingest_then_score_linked [OF m vin_equiv_example, of "[]" empty_store]
      m vin_equiv_example scored_example
    by simp
qed

section \<open>The radius default\<close>

text \<open>
  C4 (amended). Normalisation stores 25 for a radius that is absent or zero and stores
  any other radius as the caller gave it; the normalised listing is what the store holds
  under the listing's id. So the stored radius is a positive value whenever the radius
  supplied is absent, zero or positive. (A negative radius is truthy in Python and
  passes through.)
\<close>

theorem radius_default:
  "radius (normalize item) =
     (if radius item = None \<or> radius item = Some 0 then Some 25 else radius item) \<and>
   map_of (by_id (ingest_item s item)) (id_str item) = Some (normalize item) \<and>
   ((radius item = None \<or> radius item = Some 0 \<or> radius_positive item) \<longrightarrow>
      radius_positive (normalize item))"
  by (auto simp add: normalize_def radius_positive_def ingest_item_lookup [unfolded normalize_def])

theorem radius_default_witness:
  "radius_positive listing_b \<and> radius_positive (normalize listing_b) \<and>
   radius (normalize listing_b) = Some 10"
proof -
  have p: "radius_positive listing_b" by (simp add: radius_positive_def listing_b_def)
  have "radius listing_b = Some 10" by (simp add: listing_b_def)
  then show ?thesis using radius_default [of listing_b empty_store] p by simp
qed

text \<open>
  A listing ingested with radius \<open>-5\<close> is stored with radius \<open>-5\<close>, which is not a
  positive value.
\<close>

theorem radius_negative_counterexample:
  "map radius (list_listings (fst (ingest empty_store [negative_radius_listing]))) = [Some (- 5)] \<and>
   radius_positive (normalize negative_radius_listing) = False"
  by code_simp

section \<open>The order of the list operation\<close>

text \<open>
  C5. The specification has the list operation return the listings newest-created-first.
  The memory backend returns the values of \<open>_by_id\<close> in the order in which their ids
  were first inserted: two listings ingested one after the other, the second created
  later, are listed oldest first.
\<close>

theorem list_oldest_first_example:
  "map created_at (list_listings (run [Ingest [listing_a], Ingest [listing_b]] empty_store)) = [1, 2] \<and>
   newest_first (list_listings (run [Ingest [listing_a], Ingest [listing_b]] empty_store)) = False"
  by code_simp

section \<open>The buyMax policy\<close>

lemma round_half_even_near: "\<bar>of_int (round_half_even y) - y\<bar> \<le> 1 / 2"
proof -
  have "of_int \<lfloor>y\<rfloor> \<le> y" "y < of_int \<lfloor>y\<rfloor> + 1" by linarith+
  then show ?thesis
    by (auto simp add: round_half_even_def Let_def)
qed

lemma round2_decimal:
  "case x of
     Fin a \<Rightarrow> \<exists>k. round2 x = fl (of_int k / 100) \<and> \<bar>of_int k / 100 - a\<bar> \<le> 1 / 200
   | _ \<Rightarrow> round2 x = x"
proof (cases x)
  case (Fin a)
  have "\<bar>of_int (round_half_even (a * 100)) - a * 100\<bar> \<le> 1 / 2"
    by (rule round_half_even_near)
  then have "\<bar>of_int (round_half_even (a * 100)) / 100 - a\<bar> \<le> 1 / 200"
    by (simp add: abs_le_iff field_simps)
  then show ?thesis using Fin by auto
qed simp_all

text \<open>
  C6. For every scored listing fact, on either backend, when the score call returns: if
  dom exceeds 45 the returned buyMax is price times 0.98 rounded to two decimal places
  and the reason codes include AgedInventory (the factor 1.03 is not applied); otherwise
  it is the maximum of 0 and price times 1.03, rounded to two decimal places. The
  product is the product of doubles and the rounding is \<open>round(x, 2)\<close>: the double
  nearest to a multiple of 1/100 that lies within 1/200 of the product. Every stored
  listing that the scoring pass finds under the VIN receives that same rounded value,
  and so does the row inserted into \<open>scores\<close> on the relational backend.
\<close>

theorem buy_max_policy:
  assumes "snd (score_listings dbo s [item]) = Inr out"
  shows "map ScoreResponse.buyMax out =
           [round2 (if 45 < Listing.dom_days item then fmul (Listing.price item) (fl 0.98)
                    else py_max (Fin 0) (fmul (Listing.price item) (fl 1.03)))] \<and>
         (45 < Listing.dom_days item \<longrightarrow>
            list_all (\<lambda>r. ''AgedInventory'' \<in> set (ScoreResponse.reasonCodes r)) out) \<and>
         (case buy_max item of
            Fin a \<Rightarrow> \<exists>k. round2 (buy_max item) = fl (of_int k / 100) \<and> \<bar>of_int k / 100 - a\<bar> \<le> 1 / 200
          | _ \<Rightarrow> round2 (buy_max item) = buy_max item) \<and>
         list_all (\<lambda>lid. map_option StoredListing.buyMax
                           (map_of (by_id (snd (fst (score_listings dbo s [item])))) lid) =
                         map_option (\<lambda>l. Some (round2 (buy_max item))) (map_of (by_id s) lid))
           (matching_ids s item) \<and>
         (case dbo of None \<Rightarrow> True
          | Some d \<Rightarrow>
              map_option (map (\<lambda>row. (fst row, fst (snd (snd row)))) \<circ> scores)
                (fst (fst (score_listings dbo s [item]))) =
              Some (map (\<lambda>row. (fst row, fst (snd (snd row)))) (scores d) @
                    [(vin_key (Listing.vin item), round2 (buy_max item))]))"
proof -
  obtain r where ret: "snd (score_item dbo s item) = Inr r" and out: "out = [r]"
    using assms by (auto split: sum.splits prod.splits)
  from score_item_returns_lookup [OF ret] obtain sv bm codes where
    sc: "scored item = Inr (sv, bm, codes)"
    and r: "r = \<lparr>ScoreResponse.vin = Listing.vin item, ScoreResponse.score = sv,
                ScoreResponse.buyMax = bm, ScoreResponse.reasonCodes = codes\<rparr>"
    and look: "\<And>k. map_of (by_id (snd (fst (score_item dbo s item)))) k =
              (if k \<in> set (matching_ids s item)
               then map_option (apply_score sv bm codes) (map_of (by_id s) k)
               else map_of (by_id s) k)"
    by blast
  have vals: "bm = round2 (buy_max item)" "codes = reason_codes item"
    using scored_Inr [OF sc] by simp_all
  have st: "fst (score_listings dbo s [item]) = fst (score_item dbo s item)"
    using ret by (auto split: sum.splits prod.splits)
  have returned: "map ScoreResponse.buyMax out =
           [round2 (if 45 < Listing.dom_days item then fmul (Listing.price item) (fl 0.98)
                    else py_max (Fin 0) (fmul (Listing.price item) (fl 1.03)))]"
    using out r vals by (simp add: buy_max_def)
  have aged: "45 < Listing.dom_days item \<longrightarrow>
            list_all (\<lambda>r. ''AgedInventory'' \<in> set (ScoreResponse.reasonCodes r)) out"
    using out r vals by (simp add: aged_reason)
  have stored: "list_all (\<lambda>lid. map_option StoredListing.buyMax
                           (map_of (by_id (snd (fst (score_listings dbo s [item])))) lid) =
                         map_option (\<lambda>l. Some (round2 (buy_max item))) (map_of (by_id s) lid))
           (matching_ids s item)"
    unfolding st list_all_iff
  proof
    fix lid assume "lid \<in> set (matching_ids s item)"
    then show "map_option StoredListing.buyMax (map_of (by_id (snd (fst (score_item dbo s item)))) lid) =
        map_option (\<lambda>l. Some (round2 (buy_max item))) (map_of (by_id s) lid)"
      using vals by (cases "map_of (by_id s) lid") (simp_all add: look apply_score_def)
  qed
  have db: "case dbo of None \<Rightarrow> True
          | Some d \<Rightarrow>
              map_option (map (\<lambda>row. (fst row, fst (snd (snd row)))) \<circ> scores)
                (fst (fst (score_listings dbo s [item]))) =
              Some (map (\<lambda>row. (fst row, fst (snd (snd row)))) (scores d) @
                    [(vin_key (Listing.vin item), round2 (buy_max item))])"
  proof (cases dbo)
    case None
    then show ?thesis by simp
  next
    case (Some d)
    then show ?thesis
      using ret sc vals unfolding st
      by (auto simp add: score_item_def record_score_def insert_score_def split: if_splits)
  qed
  from returned aged round2_decimal [of "buy_max item"] stored db show ?thesis by blast
qed

theorem buy_max_policy_witness:
  "snd (score_listings None (run [Ingest [listing_a]] empty_store) [aged_fact]) =
     Inr [\<lparr>ScoreResponse.vin = ''x1'', ScoreResponse.score = 15, ScoreResponse.buyMax = Fin 9800,
           ScoreResponse.reasonCodes = [''PriceVsBaseline'', ''AgedInventory'']\<rparr>] \<and>
   45 < Listing.dom_days aged_fact \<and>
   matching_ids (run [Ingest [listing_a]] empty_store) aged_fact = [''a''] \<and>
   round2 (fmul (Listing.price aged_fact) (fl 0.98)) = Fin 9800 \<and>
   map_option StoredListing.buyMax
     (map_of (by_id (snd (fst (score_listings None (run [Ingest [listing_a]] empty_store) [aged_fact])))) ''a'') =
   Some (Some (Fin 9800))"
proof -
  let ?s = "run [Ingest [listing_a]] empty_store"
  let ?r = "\<lparr>ScoreResponse.vin = ''x1'', ScoreResponse.score = 15, ScoreResponse.buyMax = Fin 9800,
           ScoreResponse.reasonCodes = [''PriceVsBaseline'', ''AgedInventory'']\<rparr>"
  have "snd (score_listings None ?s [aged_fact]) =
     Inr [\<lparr>ScoreResponse.vin = Listing.vin aged_fact, ScoreResponse.score = 15,
           ScoreResponse.buyMax = Fin 9800,
           ScoreResponse.reasonCodes = [''PriceVsBaseline'', ''AgedInventory'']\<rparr>]"
    by (simp only: score_listings_memory_single [OF scored_aged] snd_conv)
  moreover have "Listing.vin aged_fact = ''x1''" by (simp add: aged_fact_def)
  ultimately have h: "snd (score_listings None ?s [aged_fact]) = Inr [?r]" by (simp only:)
  have d: "45 < Listing.dom_days aged_fact" by (simp add: aged_fact_def)
  have m: "matching_ids ?s aged_fact = [''a'']" by code_simp
  have l: "map_option id_str (map_of (by_id ?s) ''a'') = Some ''a''" by code_simp
  note t = buy_max_policy [OF h]
  from t d have v: "round2 (fmul (Listing.price aged_fact) (fl 0.98)) = Fin 9800"
    by simp
  then have b: "round2 (buy_max aged_fact) = Fin 9800" using d by (simp add: buy_max_def)
  from t m have "map_option StoredListing.buyMax
       (map_of (by_id (snd (fst (score_listings None ?s [aged_fact])))) ''a'') =
     map_option (\<lambda>l. Some (round2 (buy_max aged_fact))) (map_of (by_id ?s) ''a'')"
    by simp
  moreover have "map_option (\<lambda>l. Some (round2 (buy_max aged_fact))) (map_of (by_id ?s) ''a'') =
     Some (Some (Fin 9800))"
    using l b by (cases "map_of (by_id ?s) ''a''") simp_all
  ultimately show ?thesis using h d m v by (simp only: simp_thms)
qed

section \<open>Scoring a VIN that was never ingested\<close>

text \<open>
  On the relational backend the loop body inserts a row into \<open>scores\<close> before it
  reaches the memory store. A VIN that was never ingested has no row in \<open>vehicles\<close>,
  the foreign key refuses the insert, and the request ends in that exception whatever
  facts follow in the batch.
\<close>

lemma score_unknown_vin_raises:
  assumes "vin_key (Listing.vin item) \<notin> set (vehicles d)"
    and "scored item = Inr h"
  shows "score_listings (Some d) s (item # items) = ((Some d, s), Inl ForeignKeyViolation)"
proof -
  obtain sv bm codes where h: "h = (sv, bm, codes)" by (metis prod_cases3)
  then have "0 \<le> sv \<and> sv \<le> 100" using assms(2) scored_Inr by blast
  then have "score_item (Some d) s item = ((Some d, s), Inl ForeignKeyViolation)"
    using assms h by (simp add: score_item_def record_score_def insert_score_def)
  then show ?thesis by simp
qed

text \<open>
  C7. The specification has the scoring of a never-ingested VIN return a valid response
  and leave the store as it was. With nothing ingested, the memory backend does so for
  the fact below (score 22, buyMax 30900, the sentinel reason code); the relational
  backend, on an empty database, raises the foreign-key violation and returns no
  response.
\<close>

theorem score_unknown_vin_relational:
  "score_listings (Some empty_database) empty_store [other_fact] =
     ((Some empty_database, empty_store), Inl ForeignKeyViolation) \<and>
   score_listings None empty_store [other_fact] =
     ((None, empty_store),
      Inr [\<lparr>ScoreResponse.vin = ''zz9'', ScoreResponse.score = 22, ScoreResponse.buyMax = Fin 30900,
            ScoreResponse.reasonCodes = [''Heuristic'']\<rparr>])"
proof -
  have "vin_key (Listing.vin other_fact) \<notin> set (vehicles empty_database)"
    by (simp add: empty_database_def)
  then have a: "score_listings (Some empty_database) empty_store [other_fact] =
     ((Some empty_database, empty_store), Inl ForeignKeyViolation)"
    using scored_other by (rule score_unknown_vin_raises)
  have m: "matching_ids empty_store other_fact = []"
    by (simp add: matching_ids_def get_ids_def empty_store_def)
  have e: "empty_store\<lparr>by_id := by_id empty_store\<rparr> = empty_store" by simp
  have "score_listings None empty_store [other_fact] =
     ((None, empty_store),
      Inr [\<lparr>ScoreResponse.vin = Listing.vin other_fact, ScoreResponse.score = 22,
            ScoreResponse.buyMax = Fin 30900, ScoreResponse.reasonCodes = [''Heuristic'']\<rparr>])"
    by (simp only: score_listings_memory_single [OF scored_other] m persist_score.simps e)
  moreover have "Listing.vin other_fact = ''zz9''" by (simp add: other_fact_def)
  ultimately show ?thesis using a by (simp only: simp_thms)
qed

section \<open>Score fields are set together\<close>

text \<open>
  C8 (amended). Ingestion stores \<open>score\<close>, \<open>buyMax\<close> and \<open>reasonCodes\<close> as the caller
  supplied them, and a scoring pass sets all three together. So, starting from the empty
  store, if every raw listing ingested has its score fields all unset or all set, then
  after any sequence of ingestions and scoring passes every listed listing has them all
  unset or all set; and a listing that a scoring pass has written is consistent whatever
  it held before.
\<close>

theorem score_fields_consistent:
  assumes "list_all score_consistent (ingested reqs)"
  shows "list_all score_consistent (list_listings (run reqs empty_store)) \<and>
         score_consistent (apply_score sv bm (reason_codes item) l)"
proof -
  have "all_consistent empty_store" by (simp add: all_consistent_def empty_store_def)
  then have a: "all_consistent (run reqs empty_store)"
    using assms by (rule all_consistent_run)
  have "indexed (run reqs empty_store)" using indexed_empty by (rule indexed_run)
  then have d: "distinct (map fst (by_id (run reqs empty_store)))" by (simp add: indexed_def)
  have "score_consistent x" if "x \<in> set (list_listings (run reqs empty_store))" for x
    using listed_lookup [OF d that] a by (auto simp add: all_consistent_def)
  then show ?thesis by (simp add: list_all_iff score_consistent_apply reason_codes_nonempty)
qed

theorem score_fields_consistent_witness:
  "list_all score_consistent (ingested [Ingest [listing_a], Score [example_fact]]) \<and>
   list_all score_consistent (list_listings (run [Ingest [listing_a], Score [example_fact]] empty_store)) \<and>
   length (list_listings (run [Ingest [listing_a], Score [example_fact]] empty_store)) = 1"
proof -
  have h: "list_all score_consistent (ingested [Ingest [listing_a], Score [example_fact]])"
    by code_simp
  have n: "length (list_listings (run [Ingest [listing_a], Score [example_fact]] empty_store)) = 1"
    by code_simp
  show ?thesis using score_fields_consistent [OF h] h n by simp
qed

text \<open>
  A raw listing that carries a score but neither buyMax nor reason codes is stored as it
  is: the stored listing has a score, no buyMax and no reason codes.
\<close>

theorem score_fields_counterexample:
  "map score_consistent (list_listings (run [Ingest [half_scored_listing]] empty_store)) = [False]"
  by code_simp

section \<open>Re-scoring in the memory backend\<close>

text \<open>
  C10 (amended). In the memory backend a scoring call overwrites: start from the empty
  store, serve any sequence of requests, then score a batch. If that call returns, then
  immediately afterwards every listed listing stored under the canonical VIN of the
  batch's last fact carries exactly that fact's score, buyMax and reason codes, whatever
  earlier scoring calls had written.
\<close>

theorem rescoring_overwrites:
  assumes "snd (score_listings None (run reqs empty_store) (items @ [item])) = Inr out"
  shows "case scored item of Inl e \<Rightarrow> False
         | Inr h \<Rightarrow>
             list_all (\<lambda>l. StoredListing.vin l = vin_key (Listing.vin item) \<longrightarrow> carries l h)
               (list_listings (snd (fst (score_listings None (run reqs empty_store) (items @ [item])))))"
proof -
  let ?s = "snd (fst (score_listings None (run reqs empty_store) items))"
  let ?s' = "snd (fst (score_item None ?s item))"
  have ret: "\<And>e. snd (score_item None ?s item) \<noteq> Inl e"
    and st: "snd (fst (score_listings None (run reqs empty_store) (items @ [item]))) = ?s'"
    using score_listings_append_returns [OF assms] by blast+
  obtain sv bm codes where sc: "scored item = Inr (sv, bm, codes)"
  proof (cases "scored item")
    case (Inl e)
    then show ?thesis using ret [of e] by (simp add: score_item_raises)
  next
    case (Inr h)
    then show ?thesis using that by (cases h) auto
  qed
  have i: "indexed ?s"
    using indexed_empty by (intro indexed_score_listings indexed_run)
  then have i': "indexed ?s'" by (rule indexed_score_item)
  then have d: "distinct (map fst (by_id ?s'))" by (simp add: indexed_def)
  have "carries l (sv, bm, codes)"
    if m: "l \<in> set (list_listings ?s')"
      and v: "StoredListing.vin l = vin_key (Listing.vin item)" for l
  proof -
    obtain lid where lid: "map_of (by_id ?s') lid = Some l"
      using listed_lookup [OF d m] by blast
    with i' have "lid \<in> set (get_ids (ids_by_vin ?s') (StoredListing.vin l))"
      by (simp add: indexed_def)
    then have "lid \<in> set (matching_ids ?s item)"
      by (simp add: score_item_index matching_ids_def v)
    with lid obtain l0 where "l = apply_score sv bm codes l0"
      using sc by (auto simp add: score_item_memory persist_score_lookup)
    then show ?thesis by (simp add: apply_score_carries)
  qed
  then show ?thesis using sc st by (simp add: list_all_iff)
qed

theorem rescoring_overwrites_witness:
  "snd (score_listings None (run [Ingest [listing_a, listing_b], Score [example_fact]] empty_store)
     ([] @ [aged_fact])) =
     Inr [\<lparr>ScoreResponse.vin = ''x1'', ScoreResponse.score = 15, ScoreResponse.buyMax = Fin 9800,
           ScoreResponse.reasonCodes = [''PriceVsBaseline'', ''AgedInventory'']\<rparr>] \<and>
   list_all (\<lambda>l. StoredListing.vin l = vin_key (Listing.vin aged_fact))
     (list_listings (snd (fst (score_listings None
        (run [Ingest [listing_a, listing_b], Score [example_fact]] empty_store) ([] @ [aged_fact]))))) \<and>
   map StoredListing.score
     (list_listings (snd (fst (score_listings None
        (run [Ingest [listing_a, listing_b], Score [example_fact]] empty_store) ([] @ [aged_fact]))))) =
   [Some 15, Some 15]"
proof -
  let ?s = "run [Ingest [listing_a, listing_b], Score [example_fact]] empty_store"
  let ?L = "list_listings (snd (fst (score_listings None ?s ([] @ [aged_fact]))))"
  have "snd (score_listings None ?s [aged_fact]) =
     Inr [\<lparr>ScoreResponse.vin = Listing.vin aged_fact, ScoreResponse.score = 15,
           ScoreResponse.buyMax = Fin 9800,
           ScoreResponse.reasonCodes = [''PriceVsBaseline'', ''AgedInventory'']\<rparr>]"
    by (simp only: score_listings_memory_single [OF scored_aged] snd_conv)
  moreover have "Listing.vin aged_fact = ''x1''" by (simp add: aged_fact_def)
  ultimately have r: "snd (score_listings None ?s ([] @ [aged_fact])) =
     Inr [\<lparr>ScoreResponse.vin = ''x1'', ScoreResponse.score = 15, ScoreResponse.buyMax = Fin 9800,
           ScoreResponse.reasonCodes = [''PriceVsBaseline'', ''AgedInventory'']\<rparr>]"
    by (simp only: append_Nil)
  have h: "list_all (\<lambda>l. StoredListing.vin l = vin_key (Listing.vin aged_fact)) ?L"
    by code_simp
  have n: "length ?L = 2" by code_simp
  from rescoring_overwrites [OF r] scored_aged
  have "list_all (\<lambda>l. StoredListing.vin l = vin_key (Listing.vin aged_fact) \<longrightarrow>
          carries l (15, Fin 9800, [''PriceVsBaseline'', ''AgedInventory''])) ?L"
    by simp
  with h have "list_all (\<lambda>l. StoredListing.score l = Some 15) ?L"
    by (simp add: list_all_iff carries_def)
  then have "map StoredListing.score ?L = replicate (length ?L) (Some 15)"
    by (simp add: list_all_iff map_replicate_const [symmetric] cong: map_cong)
  then have "map StoredListing.score ?L = [Some 15, Some 15]"
    using n by (simp add: numeral_2_eq_2)
  with r h show ?thesis by (simp only: simp_thms)
qed

text \<open>
  A VIN is scored twice and a second listing with that VIN is ingested afterwards: the
  list operation then shows two listings under the VIN, the first with the score 15 of
  the most recent scoring call, the second with no score.
\<close>

theorem rescoring_counterexample:
  "map StoredListing.vin (list_listings
     (run [Ingest [listing_a], Score [example_fact], Score [aged_fact], Ingest [listing_b]] empty_store)) =
     [''X1'', ''X1''] \<and>
   vin_key (Listing.vin aged_fact) = ''X1'' \<and>
   scored aged_fact = Inr (15, Fin 9800, [''PriceVsBaseline'', ''AgedInventory'']) \<and>
   map StoredListing.score (list_listings
     (run [Ingest [listing_a], Score [example_fact], Score [aged_fact], Ingest [listing_b]] empty_store)) =
     [Some 15, None]"
  by code_simp

end
